theory Spec2Isabelle
  imports Complex_Main "HOL-Library.Char_ord" "HOL-Library.List_Lexorder"
begin

section \<open>Errors and tensors\<close>

text \<open>
  The notebook \<^verbatim>\<open>Exploration.ipynb\<close> is embedded function by function. Pixel values are
  real numbers: all arithmetic below is exact, the rounding of 32-bit floats is not part
  of the model. Every exception the Python code can raise is a value of \<open>error\<close>;
  \<open>NotANumber\<close> stands for a result tensor with NaN or infinite entries (a mean over zero
  pixels, a division of a tensor by zero), which the code returns without raising and for
  which the reals have no value.
\<close>

datatype error =
    ValueError
  | RuntimeError
  | ZeroDivisionError
  | IndexError
  | KeyError
  | FileNotFoundError
  | ParserError
  | UnidentifiedImageError
  | TypeError
  | UnicodeDecodeError
  | AttributeError
  | NotANumber

text \<open>Sequencing: an exception ends the computation, a value is passed on.\<close>

fun bindE :: "error + 'a \<Rightarrow> ('a \<Rightarrow> error + 'b) \<Rightarrow> error + 'b" where
  "bindE (Inl e) f = Inl e"
| "bindE (Inr x) f = f x"

text \<open>
  A tensor of shape \<open>C \<times> H \<times> W\<close>, as \<^verbatim>\<open>transforms.ToTensor()\<close> produces it: the
  shape and the entries in row-major order (the entry of channel \<open>c\<close>, row \<open>i\<close>, column
  \<open>j\<close> stands at position \<open>(c * H + i) * W + j\<close>).
\<close>

record tensor3 =
  chans :: nat
  height :: nat
  width :: nat
  vals :: "real list"


definition same_shape :: "tensor3 \<Rightarrow> tensor3 \<Rightarrow> bool" where
  "same_shape s t = (chans s = chans t \<and> height s = height t \<and> width s = width t)"

text \<open>A dataset yields pairs of an image tensor and an integer class label.\<close>

type_synonym item = "tensor3 \<times> nat"
type_synonym dataset = "item list"

section \<open>The data loader\<close>

text \<open>
  \<^verbatim>\<open>DataLoader(dataset, batch_size=b)\<close> with its defaults (no shuffling, no dropped last
  batch, no worker processes): the indices \<open>0, \<dots>, len(dataset) - 1\<close> in order, cut into
  batches of \<open>b\<close>, the last one possibly shorter. For each batch of indices it reads
  \<^verbatim>\<open>dataset[i]\<close> for every index and stacks the tensors, which raises when two of
  them differ in shape. A batch size that is not positive is refused with a ValueError.
\<close>

function batches :: "nat \<Rightarrow> 'a list \<Rightarrow> 'a list list" where
  "batches b xs = (if b = 0 \<or> xs = [] then [] else take b xs # batches b (drop b xs))"
  by pat_completeness auto
termination
  by (relation "measure (\<lambda>(b, xs). length xs)") auto

definition batch_sampler :: "nat \<Rightarrow> dataset \<Rightarrow> error + nat list list" where
  "batch_sampler b ds = (if b = 0 then Inl ValueError else Inr (batches b [0..<length ds]))"

text \<open>
  A stacked batch of shape \<open>n \<times> C \<times> H \<times> W\<close>: the shape of its samples and the entries
  of each sample.
\<close>

record batch =
  bchans :: nat
  bheight :: nat
  bwidth :: nat
  samples :: "real list list"

definition collate :: "tensor3 list \<Rightarrow> error + batch" where
  "collate ts =
     (case ts of
        [] \<Rightarrow> Inl IndexError
      | t # _ \<Rightarrow>
          if list_all (same_shape t) ts
          then Inr \<lparr>bchans = chans t, bheight = height t, bwidth = width t, samples = map vals ts\<rparr>
          else Inl RuntimeError)"

definition fetch :: "dataset \<Rightarrow> nat list \<Rightarrow> error + batch" where
  "fetch ds idxs = collate (map (\<lambda>i. fst (ds ! i)) idxs)"

text \<open>
  \<^verbatim>\<open>batch.view(n, c, -1)\<close>: the \<open>n * C * H * W\<close> entries regrouped as \<open>n\<close> samples of
  \<open>c\<close> rows each. It raises when \<open>n * c\<close> is zero or does not divide the number of
  entries.
\<close>

definition rows :: "nat \<Rightarrow> nat \<Rightarrow> real list \<Rightarrow> real list list" where
  "rows c p xs = map (\<lambda>k. take p (drop (k * p) xs)) [0..<c]"

definition view :: "nat \<Rightarrow> batch \<Rightarrow> error + real list list list" where
  "view c B =
     (let n = length (samples B);
          total = n * bchans B * bheight B * bwidth B
      in if n * c = 0 then Inl RuntimeError
         else if total mod (n * c) \<noteq> 0 then Inl RuntimeError
         else Inr (map (rows c (total div (n * c))) (samples B)))"

text \<open>\<^verbatim>\<open>x.sum(0)\<close> of an \<open>n \<times> c\<close> tensor: the \<open>c\<close> column sums.\<close>

definition sum0 :: "nat \<Rightarrow> real list list \<Rightarrow> real list" where
  "sum0 c xss = map (\<lambda>k. \<Sum>xs\<leftarrow>xss. xs ! k) [0..<c]"

text \<open>
  The accumulators start as Python floats (\<^verbatim>\<open>mean = 0.\<close>) and become tensors with the
  first \<^verbatim>\<open>+=\<close>. Adding a tensor to a tensor in place broadcasts a one-element right
  operand and raises on any other difference of length.
\<close>

datatype acc = PyFloat real | Tensor "real list"

fun iadd :: "acc \<Rightarrow> real list \<Rightarrow> error + acc" where
  "iadd (PyFloat a) v = Inr (Tensor (map (\<lambda>x. a + x) v))"
| "iadd (Tensor m) v =
     (if length v = length m then Inr (Tensor (map2 (+) m v))
      else if length v = 1 then Inr (Tensor (map (\<lambda>x. x + hd v) m))
      else Inl RuntimeError)"

fun idiv :: "acc \<Rightarrow> nat \<Rightarrow> error + acc" where
  "idiv (PyFloat a) n = (if n = 0 then Inl ZeroDivisionError else Inr (PyFloat (a / real n)))"
| "idiv (Tensor m) n =
     (if n = 0 then (if m = [] then Inr (Tensor []) else Inl NotANumber)
      else Inr (Tensor (map (\<lambda>x. x / real n) m)))"

section \<open>dataset_mean\<close>

text \<open>
  \<^verbatim>\<open>batch.mean(2)\<close> of an \<open>n \<times> c \<times> p\<close> tensor: the mean of every row. With \<open>p = 0\<close>
  every entry of the result is NaN.
\<close>

definition mean2 :: "real list list list \<Rightarrow> error + real list list" where
  "mean2 v =
     (if \<exists>s \<in> set v. \<exists>r \<in> set s. r = [] then Inl NotANumber
      else Inr (map (map (\<lambda>r. sum_list r / real (length r))) v))"

text \<open>
  One iteration loads the batch of the given indices and computes
  \<^verbatim>\<open>batch.view(n, batch.size(1), -1).mean(2).sum(0)\<close>.
\<close>

definition batch_mean :: "dataset \<Rightarrow> nat list \<Rightarrow> error + real list" where
  "batch_mean ds idxs =
     bindE (fetch ds idxs) (\<lambda>B.
     bindE (view (bchans B) B) (\<lambda>v.
     bindE (mean2 v) (\<lambda>m. Inr (sum0 (bchans B) m))))"

text \<open>
  The loop of \<open>dataset_mean\<close> over the batches of indices. The state is the accumulator
  \<open>mean\<close> and the list of dataset indices read so far.
\<close>

fun mean_loop :: "dataset \<Rightarrow> nat list list \<Rightarrow> acc \<times> nat list \<Rightarrow> error + acc \<times> nat list" where
  "mean_loop ds [] st = Inr st"
| "mean_loop ds (idxs # rest) (mean, rd) =
     bindE (batch_mean ds idxs) (\<lambda>s.
     bindE (iadd mean s) (\<lambda>mean'.
       mean_loop ds rest (mean', rd @ idxs)))"

definition dataset_mean :: "dataset \<Rightarrow> nat \<Rightarrow> error + acc \<times> nat list" where
  "dataset_mean ds batch_size =
     bindE (batch_sampler batch_size ds) (\<lambda>dl.
     bindE (mean_loop ds dl (PyFloat 0, [])) (\<lambda>(mean, rd).
     bindE (idiv mean (length ds)) (\<lambda>mean'. Inr (mean', rd))))"

section \<open>dataset_std\<close>

text \<open>A function that can raise, applied to every element of a list in order.\<close>

fun mapE :: "('a \<Rightarrow> error + 'b) \<Rightarrow> 'a list \<Rightarrow> error + 'b list" where
  "mapE f [] = Inr []"
| "mapE f (x # xs) = bindE (f x) (\<lambda>y. bindE (mapE f xs) (\<lambda>ys. Inr (y # ys)))"

text \<open>
  \<^verbatim>\<open>batch - mean.unsqueeze(1)\<close> on one sample of \<open>c\<close> rows, with \<open>mean\<close> a vector of
  \<open>m\<close> entries, under the broadcasting rules: the shapes \<open>c \<times> p\<close> and \<open>m \<times> 1\<close> agree
  when \<open>m = c\<close>, when \<open>m = 1\<close> or when \<open>c = 1\<close>, and the operation raises otherwise.
\<close>

definition bsub :: "real list \<Rightarrow> real list list \<Rightarrow> error + real list list" where
  "bsub mu rs =
     (if length mu = length rs then Inr (map2 (\<lambda>r m. map (\<lambda>x. x - m) r) rs mu)
      else if length mu = 1 then Inr (map (map (\<lambda>x. x - hd mu)) rs)
      else if length rs = 1 then Inr (map (\<lambda>m. map (\<lambda>x. x - m) (hd rs)) mu)
      else Inl RuntimeError)"

definition square :: "real list list list \<Rightarrow> real list list list" where
  "square v = map (map (map (\<lambda>x. x\<^sup>2))) v"

text \<open>\<^verbatim>\<open>x.sum([0, 2])\<close> of an \<open>n \<times> c \<times> p\<close> tensor with \<open>n > 0\<close>: one sum per row index.\<close>

definition sum02 :: "real list list list \<Rightarrow> real list" where
  "sum02 v = sum0 (length (hd v)) (map (map sum_list) v)"

text \<open>
  One iteration loads the batch and computes
  \<^verbatim>\<open>((batch.view(n, c, -1) - mean.unsqueeze(1))**2).sum([0, 2])\<close>.
\<close>

definition batch_sqdev :: "dataset \<Rightarrow> real list \<Rightarrow> nat \<Rightarrow> nat list \<Rightarrow> error + real list" where
  "batch_sqdev ds mean c idxs =
     bindE (fetch ds idxs) (\<lambda>B.
     bindE (view c B) (\<lambda>v.
     bindE (mapE (bsub mean) v) (\<lambda>d. Inr (sum02 (square d)))))"

fun std_loop ::
  "dataset \<Rightarrow> real list \<Rightarrow> nat \<Rightarrow> nat list list \<Rightarrow> acc \<times> nat list \<Rightarrow> error + acc \<times> nat list" where
  "std_loop ds mean c [] st = Inr st"
| "std_loop ds mean c (idxs # rest) (var, rd) =
     bindE (batch_sqdev ds mean c idxs) (\<lambda>s.
     bindE (iadd var s) (\<lambda>var'.
       std_loop ds mean c rest (var', rd @ idxs)))"

text \<open>\<^verbatim>\<open>torch.sqrt\<close> takes a tensor; the square root of a negative entry is NaN.\<close>

fun tsqrt :: "acc \<Rightarrow> error + acc" where
  "tsqrt (PyFloat a) = Inl TypeError"
| "tsqrt (Tensor m) =
     (if \<exists>x \<in> set m. x < 0 then Inl NotANumber else Inr (Tensor (map sqrt m)))"

text \<open>
  \<^verbatim>\<open>dataset[0]\<close> is read first, for the shape, before the loader is built; on an empty
  dataset it raises. The list of reads therefore starts as \<open>[0]\<close>.
\<close>

definition dataset_std :: "dataset \<Rightarrow> real list \<Rightarrow> nat \<Rightarrow> error + acc \<times> nat list" where
  "dataset_std ds mean batch_size =
     (case ds of
        [] \<Rightarrow> Inl IndexError
      | (t, _) # _ \<Rightarrow>
          bindE (batch_sampler batch_size ds) (\<lambda>dl.
          bindE (std_loop ds mean (chans t) dl (PyFloat 0, [0])) (\<lambda>(var, rd).
          bindE (idiv var (length ds * height t * width t)) (\<lambda>q.
          bindE (tsqrt q) (\<lambda>std. Inr (std, rd))))))"

section \<open>dataset_scaling\<close>

text \<open>\<^verbatim>\<open>torch.max\<close> and \<^verbatim>\<open>torch.min\<close> of all entries; both raise on a tensor without entries.\<close>

fun tmax :: "real list \<Rightarrow> error + real" where
  "tmax [] = Inl RuntimeError"
| "tmax (x # xs) = Inr (fold max xs x)"

fun tmin :: "real list \<Rightarrow> error + real" where
  "tmin [] = Inl RuntimeError"
| "tmin (x # xs) = Inr (fold min xs x)"

text \<open>
  One iteration loads the batch, reshapes it and takes \<^verbatim>\<open>torch.max(batch).item()\<close>
  and \<^verbatim>\<open>torch.min(batch).item()\<close>, in this order.
\<close>

definition batch_range :: "dataset \<Rightarrow> nat list \<Rightarrow> error + real \<times> real" where
  "batch_range ds idxs =
     bindE (fetch ds idxs) (\<lambda>B.
     bindE (view (bchans B) B) (\<lambda>v.
     bindE (tmax (concat (concat v))) (\<lambda>hi.
     bindE (tmin (concat (concat v))) (\<lambda>lo. Inr (hi, lo)))))"

fun scaling_loop ::
  "dataset \<Rightarrow> nat list list \<Rightarrow> real \<times> real \<times> nat list \<Rightarrow> error + real \<times> real \<times> nat list" where
  "scaling_loop ds [] st = Inr st"
| "scaling_loop ds (idxs # rest) (min_value, max_value, rd) =
     bindE (batch_range ds idxs) (\<lambda>(hi, lo).
       scaling_loop ds rest (min min_value lo, max max_value hi, rd @ idxs))"

definition dataset_scaling :: "dataset \<Rightarrow> nat \<Rightarrow> error + real \<times> nat list" where
  "dataset_scaling ds batch_size =
     bindE (batch_sampler batch_size ds) (\<lambda>dl.
     bindE (scaling_loop ds dl (1, - 1, [])) (\<lambda>(min_value, max_value, rd).
       Inr (max \<bar>min_value\<bar> \<bar>max_value\<bar>, rd)))"

section \<open>The transforms\<close>


text \<open>
  \<^verbatim>\<open>transforms.Normalize(mean, std)\<close> of torchvision, applied to a tensor: it refuses a
  \<open>std\<close> with a zero entry, and subtracts and divides in place, channel by channel,
  where \<open>mean\<close> and \<open>std\<close> have one entry per channel or a single entry.
\<close>

definition bcast :: "real list \<Rightarrow> nat \<Rightarrow> real" where
  "bcast v k = (if length v = 1 then hd v else v ! k)"

definition Normalize :: "real list \<Rightarrow> real list \<Rightarrow> tensor3 \<Rightarrow> error + tensor3" where
  "Normalize mean std t =
     (if \<exists>s \<in> set std. s = 0 then Inl ValueError
      else if length mean \<noteq> chans t \<and> length mean \<noteq> 1 then Inl RuntimeError
      else if length std \<noteq> chans t \<and> length std \<noteq> 1 then Inl RuntimeError
      else Inr (t\<lparr>vals :=
        map (\<lambda>n. (vals t ! n - bcast mean (n div (height t * width t))) / bcast std (n div (height t * width t)))
          [0..<length (vals t)]\<rparr>))"

section \<open>Files and paths\<close>

text \<open>
  The files the notebook reads and writes. A path holds a text file (its lines), a CSV
  table (its rows, as \<^verbatim>\<open>pd.read_csv\<close> parses them), an image (as
  \<^verbatim>\<open>PIL.Image.open(f).convert('RGB')\<close> decodes it) or an array archive; a directory
  has a listing. Reading a path that holds nothing raises \<open>FileNotFoundError\<close>, reading
  content of another kind raises the reader's own error. A row of \<^verbatim>\<open>stats.csv\<close> has the
  columns the notebook uses; \<open>ErrorQ\<close>, \<open>AmbiguousQ\<close>, \<open>WrongPoseQ\<close> and \<open>ContextQ\<close> stand
  for the columns \<^verbatim>\<open>'Error?'\<close>, \<^verbatim>\<open>'Ambiguous?'\<close>, \<^verbatim>\<open>'WrongPose?'\<close> and
  \<^verbatim>\<open>'Context?'\<close>.
\<close>

record row =
  Category :: string
  ImageNetID :: string
  SketchID :: int
  ErrorQ :: int
  AmbiguousQ :: int
  WrongPoseQ :: int
  ContextQ :: int

record rgb_image =
  im_width :: nat
  im_height :: nat
  im_pixels :: "(nat \<times> nat \<times> nat) list"

datatype npvalue = Array "real list" | Scalar real

datatype content =
    TextFile "string list"
  | CsvFile "row list"
  | ImageFile rgb_image
  | NpzFile "(string \<times> npvalue) list"

record filesystem =
  files :: "string \<rightharpoonup> content"
  dirs :: "string \<rightharpoonup> string list"

definition listdir :: "filesystem \<Rightarrow> string \<Rightarrow> error + string list" where
  "listdir fs path = (case dirs fs path of None \<Rightarrow> Inl FileNotFoundError | Some names \<Rightarrow> Inr names)"

definition read_lines :: "filesystem \<Rightarrow> string \<Rightarrow> error + string list" where
  "read_lines fs path =
     (case files fs path of
        None \<Rightarrow> Inl FileNotFoundError
      | Some (TextFile ls) \<Rightarrow> Inr ls
      | Some _ \<Rightarrow> Inl UnicodeDecodeError)"

definition read_csv :: "filesystem \<Rightarrow> string \<Rightarrow> error + row list" where
  "read_csv fs path =
     (case files fs path of
        None \<Rightarrow> Inl FileNotFoundError
      | Some (CsvFile rs) \<Rightarrow> Inr rs
      | Some _ \<Rightarrow> Inl ParserError)"


text \<open>\<^verbatim>\<open>os.path.join\<close> on POSIX paths.\<close>

definition join2 :: "string \<Rightarrow> string \<Rightarrow> string" where
  "join2 path b =
     (if b \<noteq> [] \<and> hd b = CHR ''/'' then b
      else if path = [] \<or> last path = CHR ''/'' then path @ b
      else path @ ''/'' @ b)"

definition path_join :: "string \<Rightarrow> string list \<Rightarrow> string" where
  "path_join a p = fold (\<lambda>b path. join2 path b) p a"

section \<open>generate_labels_id_map\<close>

text \<open>
  A Python dictionary whose keys and values are integers or strings, as
  \<open>generate_labels_id_map\<close> builds it; \<^verbatim>\<open>d[k]\<close> raises \<open>KeyError\<close> on a missing key.
\<close>

datatype key = IntKey nat | StrKey string

type_synonym pydict = "key \<rightharpoonup> key"

definition getitem :: "pydict \<Rightarrow> key \<Rightarrow> error + key" where
  "getitem d k = (case d k of None \<Rightarrow> Inl KeyError | Some v \<Rightarrow> Inr v)"

fun labels_loop :: "(nat \<times> string) list \<Rightarrow> pydict \<Rightarrow> pydict" where
  "labels_loop [] d = d"
| "labels_loop ((i, label) # rest) d =
     labels_loop rest ((d(IntKey i \<mapsto> StrKey label))(StrKey label \<mapsto> IntKey i))"

definition generate_labels_id_map :: "filesystem \<Rightarrow> string \<Rightarrow> error + pydict" where
  "generate_labels_id_map fs photos_dir =
     bindE (listdir fs photos_dir) (\<lambda>names.
       Inr (labels_loop (enumerate 0 (sort names)) Map.empty))"

section \<open>SketchesDataset\<close>

text \<open>
  What \<open>SketchesDataset.__getitem__\<close> returns as the image: the decoded picture, or whatever
  the transform makes of it. A transform is any callable; it may raise.
\<close>

datatype sample = PIL rgb_image | Tens tensor3

type_synonym transform_fn = "sample \<Rightarrow> error + sample"

record SketchesDataset =
  sketches_dir :: string
  info_dir :: string
  transform :: "transform_fn option"
  invalid :: "string list"
  stats :: "row list"

text \<open>
  \<open>__init__\<close> reads the two files of the info directory and filters the table once for
  every removal flag that is set. A keyword argument with a default value is an option:
  \<open>None\<close> stands for an argument not passed.
\<close>

fun default_arg :: "'a \<Rightarrow> 'a option \<Rightarrow> 'a" where
  "default_arg d None = d"
| "default_arg d (Some v) = v"

definition SketchesDataset_init ::
  "filesystem \<Rightarrow> string \<Rightarrow> string \<Rightarrow> transform_fn option \<Rightarrow>
   bool option \<Rightarrow> bool option \<Rightarrow> bool option \<Rightarrow> bool option \<Rightarrow> error + SketchesDataset" where
  "SketchesDataset_init fs sketches_dir' info_dir' transform'
       remove_error remove_ambiguous remove_pose remove_context =
     bindE (read_lines fs (path_join info_dir' [''invalid-error.txt''])) (\<lambda>lines.
     bindE (read_csv fs (path_join info_dir' [''stats.csv''])) (\<lambda>stats0.
       let stats1 = (if default_arg True remove_error then filter (\<lambda>r. ErrorQ r = 0) stats0 else stats0);
           stats2 = (if default_arg False remove_ambiguous then filter (\<lambda>r. AmbiguousQ r = 0) stats1 else stats1);
           stats3 = (if default_arg False remove_pose then filter (\<lambda>r. WrongPoseQ r = 0) stats2 else stats2);
           stats4 = (if default_arg False remove_context then filter (\<lambda>r. ContextQ r = 0) stats3 else stats3)
       in Inr \<lparr>sketches_dir = sketches_dir', info_dir = info_dir', transform = transform',
               invalid = lines, stats = stats4\<rparr>))"

definition SketchesDataset_len :: "SketchesDataset \<Rightarrow> nat" where
  "SketchesDataset_len self = length (stats self)"








section \<open>The pre-processing cells\<close>






section \<open>Reference statistics\<close>



definition pixels :: "dataset \<Rightarrow> real set" where
  "pixels ds = (\<Union>t \<in> set (map fst ds). set (vals t))"

text \<open>Every image of the dataset is a well-formed \<open>C \<times> H \<times> W\<close> tensor.\<close>

definition uniform :: "nat \<Rightarrow> nat \<Rightarrow> nat \<Rightarrow> dataset \<Rightarrow> bool" where
  "uniform C H W ds =
     list_all (\<lambda>(t, l). chans t = C \<and> height t = H \<and> width t = W \<and> length (vals t) = C * H * W) ds"

section \<open>Auxiliary notions\<close>

text \<open>The sum of the entries of channel \<open>c\<close> of a tensor with \<open>P\<close> entries per channel.\<close>

definition chan_sum :: "nat \<Rightarrow> tensor3 \<Rightarrow> nat \<Rightarrow> real" where
  "chan_sum P t c = sum_list (take P (drop (c * P) (vals t)))"

text \<open>A batch of indices as the loader produces them: not empty, every index in range.\<close>

definition ok_batch :: "dataset \<Rightarrow> nat list \<Rightarrow> bool" where
  "ok_batch ds idxs = (idxs \<noteq> [] \<and> set idxs \<subseteq> {..<length ds})"

text \<open>
  The broadcast subtraction split into its shape check and its value; the number of rows
  of the difference; the sum of squared deviations of row \<open>k\<close> of one sample.
\<close>

definition bsub_ok :: "real list \<Rightarrow> nat \<Rightarrow> bool" where
  "bsub_ok mu c = (length mu = c \<or> length mu = 1 \<or> c = 1)"

definition bsub_val :: "real list \<Rightarrow> real list list \<Rightarrow> real list list" where
  "bsub_val mu rs =
     (if length mu = length rs then map2 (\<lambda>r m. map (\<lambda>x. x - m) r) rs mu
      else if length mu = 1 then map (map (\<lambda>x. x - hd mu)) rs
      else map (\<lambda>m. map (\<lambda>x. x - m) (hd rs)) mu)"

definition out_chans :: "real list \<Rightarrow> nat \<Rightarrow> nat" where
  "out_chans mu c = (if length mu = 1 then c else length mu)"

definition sq_sum :: "real list \<Rightarrow> nat \<Rightarrow> nat \<Rightarrow> real list \<Rightarrow> nat \<Rightarrow> real" where
  "sq_sum mu c p vs k = (\<Sum>x\<leftarrow>bsub_val mu (rows c p vs) ! k. x\<^sup>2)"

text \<open>What \<open>dataset_std\<close> returns on a dataset of \<open>C \<times> H \<times> W\<close> tensors, for any batch size.\<close>

definition std_result :: "dataset \<Rightarrow> real list \<Rightarrow> nat \<Rightarrow> nat \<Rightarrow> nat \<Rightarrow> error + acc \<times> nat list" where
  "std_result ds mu C H W =
     (if ds = [] then Inl IndexError
      else if C = 0 then Inl RuntimeError
      else if \<not> bsub_ok mu C then Inl RuntimeError
      else if H * W = 0 then (if out_chans mu C = 0 then Inr (Tensor [], 0 # [0..<length ds]) else Inl NotANumber)
      else Inr (Tensor (map (\<lambda>k. sqrt ((\<Sum>i\<leftarrow>[0..<length ds]. sq_sum mu C (H * W) (vals (fst (ds ! i))) k)
                                   / real (length ds * H * W))) [0..<out_chans mu C]),
                0 # [0..<length ds]))"

text \<open>The pixel values of the items with the given indices.\<close>

definition batch_pixels :: "dataset \<Rightarrow> nat list \<Rightarrow> real set" where
  "batch_pixels ds idxs = (\<Union>i \<in> set idxs. set (vals (fst (ds ! i))))"

section \<open>Example data\<close>

text \<open>A dataset of two images of one pixel each, for the examples.\<close>

abbreviation two_pixels :: dataset where
  "two_pixels \<equiv>
     [(\<lparr>chans = 1, height = 1, width = 1, vals = [1]\<rparr>, 0),
      (\<lparr>chans = 1, height = 1, width = 1, vals = [3]\<rparr>, 1)]"



text \<open>Three rows of metadata and a file system holding them, for the examples.\<close>

abbreviation row_ok :: row where
  "row_ok \<equiv> \<lparr>Category = ''sea turtle'', ImageNetID = ''n01_22'', SketchID = 1,
     ErrorQ = 0, AmbiguousQ = 0, WrongPoseQ = 0, ContextQ = 0\<rparr>"

abbreviation row_error :: row where
  "row_error \<equiv> \<lparr>Category = ''cat'', ImageNetID = ''n02_7'', SketchID = 2,
     ErrorQ = 1, AmbiguousQ = 0, WrongPoseQ = 0, ContextQ = 0\<rparr>"

abbreviation row_ambiguous :: row where
  "row_ambiguous \<equiv> \<lparr>Category = ''cat'', ImageNetID = ''n02_7'', SketchID = 3,
     ErrorQ = 0, AmbiguousQ = 1, WrongPoseQ = 0, ContextQ = 0\<rparr>"

abbreviation info_fs :: filesystem where
  "info_fs \<equiv> \<lparr>files = [''info/invalid-error.txt'' \<mapsto> TextFile [],
                        ''info/stats.csv'' \<mapsto> CsvFile [row_ok, row_error, row_ambiguous]],
              dirs = Map.empty\<rparr>"

section \<open>The batches of the loader\<close>

declare batches.simps [simp del]

lemma batches_Nil: "batches b [] = []"
  by (simp add: batches.simps)

lemma batches_step: "0 < b \<Longrightarrow> xs \<noteq> [] \<Longrightarrow> batches b xs = take b xs # batches b (drop b xs)"
  by (subst batches.simps) simp

lemma concat_batches: "0 < b \<Longrightarrow> concat (batches b xs) = xs"
proof (induction b xs rule: batches.induct)
  case (1 b xs)
  show ?case
  proof (cases "xs = []")
    case True
    then show ?thesis by (simp add: batches_Nil)
  next
    case False
    with 1 show ?thesis by (simp add: batches_step)
  qed
qed

lemma batches_nonempty: "0 < b \<Longrightarrow> ys \<in> set (batches b xs) \<Longrightarrow> ys \<noteq> []"
proof (induction b xs rule: batches.induct)
  case (1 b xs)
  show ?case
  proof (cases "xs = []")
    case True
    with 1 show ?thesis by (simp add: batches_Nil)
  next
    case False
    with 1 show ?thesis by (auto simp: batches_step)
  qed
qed

lemma batches_subset: "ys \<in> set (batches b xs) \<Longrightarrow> set ys \<subseteq> set xs"
proof (induction b xs rule: batches.induct)
  case (1 b xs)
  show ?case
  proof (cases "b = 0 \<or> xs = []")
    case True
    with 1 show ?thesis by (auto simp: batches.simps)
  next
    case False
    then have "batches b xs = take b xs # batches b (drop b xs)" by (simp add: batches_step)
    with 1 False show ?thesis by (auto dest: in_set_takeD in_set_dropD)
  qed
qed

lemma batches_eq_Nil: "0 < b \<Longrightarrow> batches b xs = [] \<longleftrightarrow> xs = []"
  by (cases "xs = []") (simp_all add: batches_Nil batches_step)

section \<open>Loading and reshaping a batch\<close>

lemma uniform_nth:
  assumes "uniform C H W ds" "i < length ds"
  shows "chans (fst (ds ! i)) = C" "height (fst (ds ! i)) = H" "width (fst (ds ! i)) = W"
    "length (vals (fst (ds ! i))) = C * H * W"
  using assms by (auto simp: uniform_def list_all_length split_beta)

lemma fetch_uniform:
  assumes "uniform C H W ds" "idxs \<noteq> []" "set idxs \<subseteq> {..<length ds}"
  shows "fetch ds idxs =
    Inr \<lparr>bchans = C, bheight = H, bwidth = W, samples = map (\<lambda>i. vals (fst (ds ! i))) idxs\<rparr>"
proof -
  obtain i rest where idxs: "idxs = i # rest" using assms(2) by (cases idxs) auto
  have "\<forall>j \<in> set idxs. j < length ds" using assms(3) by auto
  then have sh: "\<forall>j \<in> set idxs. chans (fst (ds ! j)) = C \<and> height (fst (ds ! j)) = H \<and> width (fst (ds ! j)) = W"
    using uniform_nth[OF assms(1)] by blast
  then have "list_all (same_shape (fst (ds ! i))) (map (\<lambda>i. fst (ds ! i)) idxs)"
    by (simp add: list_all_iff same_shape_def idxs)
  with sh show ?thesis
    by (simp add: fetch_def collate_def idxs comp_def)
qed

lemma view_uniform:
  assumes "ss \<noteq> []" "P = H * W"
  shows "view c \<lparr>bchans = c, bheight = H, bwidth = W, samples = ss\<rparr> =
    (if c = 0 then Inl RuntimeError else Inr (map (rows c P) ss))"
proof (cases "c = 0")
  case True
  then show ?thesis by (simp add: view_def)
next
  case False
  have n: "0 < length ss" using assms by simp
  have eq: "length ss * c * H * W = (length ss * c) * (H * W)" by (simp add: algebra_simps)
  show ?thesis using False n unfolding view_def Let_def assms(2)
    by (simp add: eq del: mult_eq_0_iff)
qed

lemma rows_length: "length (rows c p xs) = c"
  by (simp add: rows_def)

lemma rows_nth: "k < c \<Longrightarrow> rows c p xs ! k = take p (drop (k * p) xs)"
  by (simp add: rows_def)

lemma rows_nth_length:
  "k < c \<Longrightarrow> length xs = c * p \<Longrightarrow> length (rows c p xs ! k) = p"
proof -
  assume k: "k < c" and l: "length xs = c * p"
  have "k * p + p \<le> c * p"
    using k by (metis Suc_leI mult_Suc mult_le_mono1 add.commute)
  then show ?thesis using l by (simp add: rows_nth k)
qed

lemma concat_rows: "concat (rows c p xs) = take (c * p) xs"
proof (induction c)
  case 0
  then show ?case by (simp add: rows_def)
next
  case (Suc c)
  have "rows (Suc c) p xs = rows c p xs @ [take p (drop (c * p) xs)]"
    by (simp add: rows_def)
  moreover have "take (Suc c * p) xs = take (c * p) xs @ take p (drop (c * p) xs)"
    using take_add[of "c * p" p xs] by (simp add: add.commute)
  ultimately show ?case using Suc by simp
qed

section \<open>The mean\<close>

lemma mean2_rows:
  assumes "0 < P" "\<forall>vs \<in> set ss. length vs = C * P"
  shows "mean2 (map (rows C P) ss) =
    Inr (map (\<lambda>vs. map (\<lambda>k. sum_list (take P (drop (k * P) vs)) / real P) [0..<C]) ss)"
proof -
  have len: "length (take P (drop (k * P) vs)) = P" if "vs \<in> set ss" "k < C" for vs k
    using rows_nth_length[of k C vs P] rows_nth[of k C P vs] that assms(2) by simp
  then have ne: "\<not> (\<exists>s \<in> set (map (rows C P) ss). \<exists>r \<in> set s. r = [])"
    using assms(1) by (fastforce simp: rows_def)
  have "map (\<lambda>r. sum_list r / real (length r)) (rows C P vs) =
      map (\<lambda>k. sum_list (take P (drop (k * P) vs)) / real P) [0..<C]" if "vs \<in> set ss" for vs
    using len[OF that] by (simp add: rows_def comp_def)
  then show ?thesis using ne unfolding mean2_def by (simp add: comp_def)
qed

lemma mean2_empty:
  assumes "ss \<noteq> []" "0 < C"
  shows "mean2 (map (rows C 0) ss) = Inl NotANumber"
proof -
  obtain s where "s \<in> set ss" using assms(1) by (cases ss) auto
  moreover have "[] \<in> set (rows C 0 s)" using assms(2) by (auto simp: rows_def)
  ultimately show ?thesis unfolding mean2_def by auto
qed

lemma mean_batch:
  assumes "uniform C H W ds" "ok_batch ds idxs" "P = H * W"
  shows "batch_mean ds idxs =
    (if C = 0 then Inl RuntimeError else if P = 0 then Inl NotANumber
     else Inr (map (\<lambda>c. \<Sum>i\<leftarrow>idxs. chan_sum P (fst (ds ! i)) c / real P) [0..<C]))"
proof -
  let ?ss = "map (\<lambda>i. vals (fst (ds ! i))) idxs"
  have ne: "idxs \<noteq> []" and sub: "set idxs \<subseteq> {..<length ds}" using assms(2) by (auto simp: ok_batch_def)
  have f: "fetch ds idxs = Inr \<lparr>bchans = C, bheight = H, bwidth = W, samples = ?ss\<rparr>"
    by (rule fetch_uniform[OF assms(1) ne sub])
  have ssne: "?ss \<noteq> []" using ne by simp
  note v = view_uniform[OF ssne assms(3)]
  show ?thesis
  proof (cases "C = 0")
    case True
    then show ?thesis by (simp add: batch_mean_def f v)
  next
    case C: False
    show ?thesis
    proof (cases "P = 0")
      case True
      have m0: "mean2 (map (rows C 0) ?ss) = Inl NotANumber"
        by (rule mean2_empty[OF ssne]) (use C in simp)
      show ?thesis using C by (simp add: batch_mean_def f v True m0 del: map_map)
    next
      case False
      have len: "\<forall>vs \<in> set ?ss. length vs = C * P"
        using uniform_nth(4)[OF assms(1)] sub by (auto simp: mult.assoc assms(3))
      have m: "mean2 (map (rows C P) ?ss) =
        Inr (map (\<lambda>vs. map (\<lambda>k. sum_list (take P (drop (k * P) vs)) / real P) [0..<C]) ?ss)"
        by (rule mean2_rows[OF _ len]) (use False in simp)
      have s: "sum0 C (map (\<lambda>vs. map (\<lambda>k. sum_list (take P (drop (k * P) vs)) / real P) [0..<C]) ?ss)
        = map (\<lambda>c. \<Sum>i\<leftarrow>idxs. chan_sum P (fst (ds ! i)) c / real P) [0..<C]"
        unfolding sum0_def by (simp add: comp_def chan_sum_def)
      show ?thesis using C False by (simp add: batch_mean_def f v m s del: map_map)
    qed
  qed
qed

lemma map2_upt: "map2 f (map g xs) (map h xs) = map (\<lambda>c. f (g c) (h c)) xs"
  by (induction xs) auto

lemma ok_batches:
  assumes "0 < b" "idxs \<in> set (batches b [0..<length ds])"
  shows "ok_batch ds idxs"
  using batches_nonempty[OF assms] batches_subset[OF assms(2)] by (auto simp: ok_batch_def)

lemma mean_loop_tensor:
  assumes "uniform C H W ds" "\<forall>idxs \<in> set bs. ok_batch ds idxs" "P = H * W" "0 < C" "0 < P"
  shows "mean_loop ds bs (Tensor (map f [0..<C]), rd) =
    Inr (Tensor (map (\<lambda>c. f c + (\<Sum>i\<leftarrow>concat bs. chan_sum P (fst (ds ! i)) c / real P)) [0..<C]),
         rd @ concat bs)"
  using assms(2)
proof (induction bs arbitrary: f rd)
  case Nil
  then show ?case by simp
next
  case (Cons idxs bs)
  have ok: "ok_batch ds idxs" using Cons.prems by simp
  have rest: "\<forall>idxs \<in> set bs. ok_batch ds idxs" using Cons.prems by simp
  show ?case
    using assms(4,5)
    by (simp add: mean_batch[OF assms(1) ok assms(3)] map2_upt Cons.IH[OF rest] add.assoc)
qed

lemma mean_loop_float:
  assumes "uniform C H W ds" "ok_batch ds idxs" "\<forall>idxs \<in> set bs. ok_batch ds idxs" "P = H * W"
  shows "mean_loop ds (idxs # bs) (PyFloat 0, rd) =
    (if C = 0 then Inl RuntimeError else if P = 0 then Inl NotANumber
     else Inr (Tensor (map (\<lambda>c. \<Sum>i\<leftarrow>concat (idxs # bs). chan_sum P (fst (ds ! i)) c / real P) [0..<C]),
         rd @ concat (idxs # bs)))"
proof (cases "C = 0 \<or> P = 0")
  case True
  then show ?thesis by (auto simp: mean_batch[OF assms(1,2,4)])
next
  case False
  then have C: "0 < C" and P: "0 < P" by auto
  show ?thesis using C P
    by (simp add: mean_batch[OF assms(1,2,4)] mean_loop_tensor[OF assms(1,3,4) C P])
qed

lemma dataset_mean_uniform:
  assumes "uniform C H W ds" "0 < b" "P = H * W"
  shows "dataset_mean ds b =
    (if ds = [] then Inl ZeroDivisionError
     else if C = 0 then Inl RuntimeError
     else if P = 0 then Inl NotANumber
     else Inr (Tensor (map (\<lambda>c. (\<Sum>i\<leftarrow>[0..<length ds]. chan_sum P (fst (ds ! i)) c / real P) / real (length ds)) [0..<C]),
               [0..<length ds]))"
proof (cases "ds = []")
  case True
  then show ?thesis using assms(2) by (simp add: dataset_mean_def batch_sampler_def batches_Nil)
next
  case False
  let ?bs = "batches b [0..<length ds]"
  have "?bs \<noteq> []" using False assms(2) by (simp add: batches_eq_Nil)
  then obtain idxs rest where bs: "?bs = idxs # rest" by (cases ?bs) auto
  have ok: "\<forall>idxs \<in> set ?bs. ok_batch ds idxs" using ok_batches[OF assms(2)] by blast
  have cc: "concat (idxs # rest) = [0..<length ds]"
    using concat_batches[OF assms(2), of "[0..<length ds]"] bs by simp
  have ok1: "ok_batch ds idxs" and ok2: "\<forall>idxs \<in> set rest. ok_batch ds idxs"
    using ok bs by auto
  show ?thesis
    using False assms(2)
    by (simp add: dataset_mean_def batch_sampler_def bs
        mean_loop_float[OF assms(1) ok1 ok2 assms(3)] cc comp_def del: concat.simps mean_loop.simps)
qed






lemma uniform_mem:
  assumes "uniform C H W ds" "x \<in> set ds"
  shows "chans (fst x) = C" "height (fst x) = H" "width (fst x) = W"
    "length (vals (fst x)) = C * H * W"
  using assms by (auto simp: uniform_def list_all_iff split_beta)





section \<open>The standard deviation\<close>

lemma bsub_eq:
  "bsub mu rs = (if bsub_ok mu (length rs) then Inr (bsub_val mu rs) else Inl RuntimeError)"
  by (auto simp: bsub_def bsub_ok_def bsub_val_def)

lemma length_bsub_val:
  "bsub_ok mu (length rs) \<Longrightarrow> length (bsub_val mu rs) = out_chans mu (length rs)"
  by (auto simp: bsub_ok_def bsub_val_def out_chans_def)

lemma mapE_Inr: "(\<And>x. x \<in> set xs \<Longrightarrow> f x = Inr (g x)) \<Longrightarrow> mapE f xs = Inr (map g xs)"
  by (induction xs) simp_all

lemma mapE_Inl: "xs \<noteq> [] \<Longrightarrow> (\<And>x. x \<in> set xs \<Longrightarrow> f x = Inl e) \<Longrightarrow> mapE f xs = Inl e"
  by (cases xs) simp_all

lemma sqdev_batch:
  assumes "uniform C H W ds" "ok_batch ds idxs" "P = H * W"
  shows "batch_sqdev ds mu C idxs =
    (if C = 0 then Inl RuntimeError else if \<not> bsub_ok mu C then Inl RuntimeError
     else Inr (map (\<lambda>k. \<Sum>i\<leftarrow>idxs. sq_sum mu C P (vals (fst (ds ! i))) k) [0..<out_chans mu C]))"
proof -
  let ?ss = "map (\<lambda>i. vals (fst (ds ! i))) idxs"
  have ne: "idxs \<noteq> []" and sub: "set idxs \<subseteq> {..<length ds}" using assms(2) by (auto simp: ok_batch_def)
  have f: "fetch ds idxs = Inr \<lparr>bchans = C, bheight = H, bwidth = W, samples = ?ss\<rparr>"
    by (rule fetch_uniform[OF assms(1) ne sub])
  have ssne: "?ss \<noteq> []" using ne by simp
  note v = view_uniform[OF ssne assms(3)]
  show ?thesis
  proof (cases "C = 0")
    case True
    then show ?thesis by (simp add: batch_sqdev_def f v)
  next
    case C: False
    let ?v = "map (rows C P) ?ss"
    have vne: "?v \<noteq> []" using ne by simp
    show ?thesis
    proof (cases "bsub_ok mu C")
      case False
      have "mapE (bsub mu) ?v = Inl RuntimeError"
        by (rule mapE_Inl[OF vne]) (use False in \<open>auto simp: bsub_eq rows_length\<close>)
      then show ?thesis using C False by (simp add: batch_sqdev_def f v del: map_map)
    next
      case True
      let ?d = "map (bsub_val mu) ?v"
      have d: "mapE (bsub mu) ?v = Inr ?d"
        by (rule mapE_Inr) (use True in \<open>auto simp: bsub_eq rows_length\<close>)
      have hd: "length (hd (square ?d)) = out_chans mu C"
        using ne length_bsub_val[of mu "rows C P (vals (fst (ds ! hd idxs)))"] True
        by (simp add: square_def hd_map rows_length)
      have "sum02 (square ?d) =
        map (\<lambda>k. \<Sum>i\<leftarrow>idxs. sq_sum mu C P (vals (fst (ds ! i))) k) [0..<out_chans mu C]"
        unfolding sum02_def hd sum0_def
      proof (rule map_cong[OF refl])
        fix k assume "k \<in> set [0..<out_chans mu C]"
        then have k: "k < out_chans mu C" by simp
        have "\<And>vs. k < length (bsub_val mu (rows C P vs))"
          using k True by (simp add: length_bsub_val rows_length)
        then show "(\<Sum>xs\<leftarrow>map (map sum_list) (square ?d). xs ! k) =
          (\<Sum>i\<leftarrow>idxs. sq_sum mu C P (vals (fst (ds ! i))) k)"
          by (simp add: square_def comp_def sq_sum_def)
      qed
      then show ?thesis using C True by (simp add: batch_sqdev_def f v d del: map_map)
    qed
  qed
qed

lemma std_loop_tensor:
  assumes "\<forall>idxs \<in> set bs. batch_sqdev ds mu c idxs = Inr (map (\<lambda>k. \<Sum>i\<leftarrow>idxs. g i k) [0..<K])"
  shows "std_loop ds mu c bs (Tensor (map f [0..<K]), rd) =
    Inr (Tensor (map (\<lambda>k. f k + (\<Sum>i\<leftarrow>concat bs. g i k)) [0..<K]), rd @ concat bs)"
  using assms
proof (induction bs arbitrary: f rd)
  case Nil
  then show ?case by simp
next
  case (Cons idxs bs)
  then show ?case by (simp add: map2_upt add.assoc)
qed

lemma std_loop_float:
  assumes "\<forall>idxs \<in> set (b1 # bs). batch_sqdev ds mu c idxs = Inr (map (\<lambda>k. \<Sum>i\<leftarrow>idxs. g i k) [0..<K])"
  shows "std_loop ds mu c (b1 # bs) (PyFloat 0, rd) =
    Inr (Tensor (map (\<lambda>k. \<Sum>i\<leftarrow>concat (b1 # bs). g i k) [0..<K]), rd @ concat (b1 # bs))"
proof -
  have rest: "\<forall>idxs \<in> set bs. batch_sqdev ds mu c idxs = Inr (map (\<lambda>k. \<Sum>i\<leftarrow>idxs. g i k) [0..<K])"
    using assms by simp
  have first: "batch_sqdev ds mu c b1 = Inr (map (\<lambda>k. \<Sum>i\<leftarrow>b1. g i k) [0..<K])"
    using assms by simp
  show ?thesis
    by (simp add: first std_loop_tensor[OF rest])
qed

lemma sq_sum_nonneg: "0 \<le> sq_sum mu c p vs k"
  unfolding sq_sum_def by (rule sum_list_nonneg) auto

lemma map_sqrt_div: "map sqrt (map (\<lambda>x. x / r) (map h xs)) = map (\<lambda>k. sqrt (h k / r)) xs"
  by (simp add: comp_def)

lemma dataset_std_nonempty:
  assumes "ds \<noteq> []"
  shows "dataset_std ds mean b =
    bindE (batch_sampler b ds) (\<lambda>dl.
    bindE (std_loop ds mean (chans (fst (hd ds))) dl (PyFloat 0, [0])) (\<lambda>(var, rd).
    bindE (idiv var (length ds * height (fst (hd ds)) * width (fst (hd ds)))) (\<lambda>q.
    bindE (tsqrt q) (\<lambda>std. Inr (std, rd)))))"
  using assms by (simp add: dataset_std_def list.case_eq_if split_beta)

lemma dataset_std_uniform:
  assumes "uniform C H W ds" "0 < b"
  shows "dataset_std ds mu b = std_result ds mu C H W"
proof (cases ds)
  case Nil
  then show ?thesis by (simp add: dataset_std_def std_result_def)
next
  case (Cons x xs)
  obtain t l where x: "x = (t, l)" by (cases x)
  have ne: "ds \<noteq> []" using Cons by simp
  have t: "chans (fst (hd ds)) = C" "height (fst (hd ds)) = H" "width (fst (hd ds)) = W"
    using uniform_mem[OF assms(1), of x] Cons x by auto
  define P where "P = H * W"
  let ?bs = "batches b [0..<length ds]"
  have "?bs \<noteq> []" using ne assms(2) by (simp add: batches_eq_Nil)
  then obtain idxs rest where bs: "?bs = idxs # rest" by (cases ?bs) auto
  have ok: "\<forall>idxs \<in> set (idxs # rest). ok_batch ds idxs" using ok_batches[OF assms(2)] bs by metis
  have cc: "concat (idxs # rest) = [0..<length ds]"
    using concat_batches[OF assms(2), of "[0..<length ds]"] bs by simp
  have unf: "dataset_std ds mu b =
          bindE (std_loop ds mu C (idxs # rest) (PyFloat 0, [0])) (\<lambda>(var, rd).
          bindE (idiv var (length ds * P)) (\<lambda>q.
          bindE (tsqrt q) (\<lambda>std. Inr (std, rd))))"
    using assms(2) by (simp add: dataset_std_nonempty[OF ne] t batch_sampler_def bs P_def mult.assoc
        del: std_loop.simps)
  show ?thesis
  proof (cases "C = 0 \<or> \<not> bsub_ok mu C")
    case True
    have "batch_sqdev ds mu C idxs = Inl RuntimeError"
      using sqdev_batch[OF assms(1) _ P_def, of idxs mu] ok True by auto
    then show ?thesis using True ne by (auto simp: unf std_result_def)
  next
    case False
    let ?g = "\<lambda>i k. sq_sum mu C P (vals (fst (ds ! i))) k"
    let ?K = "out_chans mu C"
    have all: "\<forall>idxs \<in> set (idxs # rest). batch_sqdev ds mu C idxs = Inr (map (\<lambda>k. \<Sum>i\<leftarrow>idxs. ?g i k) [0..<?K])"
      using sqdev_batch[OF assms(1) _ P_def, of _ mu] ok False by auto
    have loop: "std_loop ds mu C (idxs # rest) (PyFloat 0, [0]) =
      Inr (Tensor (map (\<lambda>k. \<Sum>i\<leftarrow>[0..<length ds]. ?g i k) [0..<?K]), 0 # [0..<length ds])"
      using std_loop_float[OF all, of "[0]"] unfolding cc by simp
    have nonneg: "0 \<le> (\<Sum>i\<leftarrow>[0..<length ds]. ?g i k) / real (length ds * P)" for k
      by (intro divide_nonneg_nonneg sum_list_nonneg) (auto simp: sq_sum_nonneg)
    show ?thesis
    proof (cases "P = 0")
      case True
      then have "H * W = 0" by (simp add: P_def)
      then show ?thesis using False ne True
        by (simp add: unf loop std_result_def del: std_loop.simps mult_eq_0_iff)
    next
      case P: False
      then have HW: "H * W \<noteq> 0" by (simp add: P_def)
      have N: "length ds * P \<noteq> 0" using P ne by simp
      have "\<not> (\<exists>x \<in> set (map (\<lambda>x. x / real (length ds * P))
          (map (\<lambda>k. \<Sum>i\<leftarrow>[0..<length ds]. ?g i k) [0..<?K])). x < 0)"
        using nonneg by (auto simp: not_less)
      then show ?thesis using False ne N HW
        by (simp add: unf loop std_result_def P_def[symmetric] mult.assoc map_sqrt_div
            del: std_loop.simps mult_eq_0_iff map_map of_nat_mult)
    qed
  qed
qed





section \<open>The scaling factor\<close>

lemma tmax_Max: "xs \<noteq> [] \<Longrightarrow> tmax xs = Inr (Max (set xs))"
  using Max.set_eq_fold[symmetric] by (cases xs) (simp_all del: set_simps)

lemma tmin_Min: "xs \<noteq> [] \<Longrightarrow> tmin xs = Inr (Min (set xs))"
  using Min.set_eq_fold[symmetric] by (cases xs) (simp_all del: set_simps)

lemma concat_view:
  assumes "\<forall>vs \<in> set ss. length vs = C * P"
  shows "concat (concat (map (rows C P) ss)) = concat ss"
proof -
  have "concat (concat (map (rows C P) ss)) = concat (map (\<lambda>vs. concat (rows C P vs)) ss)"
    by (induction ss) simp_all
  also have "\<dots> = concat (map (\<lambda>vs. vs) ss)"
    by (rule arg_cong[where f = concat], rule map_cong[OF refl]) (simp add: concat_rows assms)
  finally show ?thesis by simp
qed

lemma range_batch:
  assumes "uniform C H W ds" "ok_batch ds idxs" "P = H * W"
  shows "batch_range ds idxs =
    (if C = 0 \<or> P = 0 then Inl RuntimeError
     else Inr (Max (batch_pixels ds idxs), Min (batch_pixels ds idxs)))"
proof -
  let ?ss = "map (\<lambda>i. vals (fst (ds ! i))) idxs"
  have ne: "idxs \<noteq> []" and sub: "set idxs \<subseteq> {..<length ds}" using assms(2) by (auto simp: ok_batch_def)
  have f: "fetch ds idxs = Inr \<lparr>bchans = C, bheight = H, bwidth = W, samples = ?ss\<rparr>"
    by (rule fetch_uniform[OF assms(1) ne sub])
  have ssne: "?ss \<noteq> []" using ne by simp
  note v = view_uniform[OF ssne assms(3)]
  have len: "\<forall>vs \<in> set ?ss. length vs = C * P"
    using uniform_nth(4)[OF assms(1)] sub by (auto simp: mult.assoc assms(3))
  have cc: "concat (concat (map (rows C P) ?ss)) = concat ?ss"
    by (rule concat_view[OF len])
  have px: "set (concat ?ss) = batch_pixels ds idxs"
    by (auto simp: batch_pixels_def)
  show ?thesis
  proof (cases "C = 0")
    case True
    then show ?thesis by (simp add: batch_range_def f v)
  next
    case C: False
    show ?thesis
    proof (cases "P = 0")
      case True
      have "concat ?ss = []" using len True by simp
      then have e: "concat (concat (map (rows C 0) ?ss)) = []" using cc True by simp
      show ?thesis using C by (simp add: batch_range_def f v True e del: map_map concat_eq_Nil_conv)
    next
      case False
      obtain i where "i \<in> set idxs" using ne by (cases idxs) auto
      moreover from this have "vals (fst (ds ! i)) \<noteq> []" using len C False by auto
      ultimately have "concat ?ss \<noteq> []" by auto
      then show ?thesis using C False
        by (simp add: batch_range_def f v cc tmax_Max tmin_Min batch_pixels_def del: map_map concat_eq_Nil_conv)
    qed
  qed
qed

lemma finite_batch_pixels: "finite (batch_pixels ds idxs)"
  by (simp add: batch_pixels_def)

lemma batch_pixels_append: "batch_pixels ds (xs @ ys) = batch_pixels ds xs \<union> batch_pixels ds ys"
  by (auto simp: batch_pixels_def)

lemma Min_insert_min:
  assumes "finite A" "A \<noteq> {}" "finite B"
  shows "Min (insert (min lo (Min A)) B) = Min (insert (lo::real) (A \<union> B))"
proof -
  have 1: "Min (insert lo A) = min lo (Min A)" using assms by simp
  show ?thesis
  proof (cases "B = {}")
    case True
    then show ?thesis using 1 by simp
  next
    case False
    have "Min (insert lo (A \<union> B)) = min (Min (insert lo A)) (Min B)"
      using assms False Min_Un[of "insert lo A" B] by simp
    then show ?thesis using assms False 1 by simp
  qed
qed

lemma Max_insert_max:
  assumes "finite A" "A \<noteq> {}" "finite B"
  shows "Max (insert (max hi (Max A)) B) = Max (insert (hi::real) (A \<union> B))"
proof -
  have 1: "Max (insert hi A) = max hi (Max A)" using assms by simp
  show ?thesis
  proof (cases "B = {}")
    case True
    then show ?thesis using 1 by simp
  next
    case False
    have "Max (insert hi (A \<union> B)) = max (Max (insert hi A)) (Max B)"
      using assms False Max_Un[of "insert hi A" B] by simp
    then show ?thesis using assms False 1 by simp
  qed
qed

lemma scaling_loop_ok:
  assumes "\<forall>idxs \<in> set bs. batch_range ds idxs = Inr (Max (batch_pixels ds idxs), Min (batch_pixels ds idxs))
      \<and> batch_pixels ds idxs \<noteq> {}"
  shows "scaling_loop ds bs (lo, hi, rd) =
    Inr (Min (insert lo (batch_pixels ds (concat bs))), Max (insert hi (batch_pixels ds (concat bs))),
         rd @ concat bs)"
  using assms
proof (induction bs arbitrary: lo hi rd)
  case Nil
  then show ?case by (simp add: batch_pixels_def)
next
  case (Cons idxs bs)
  have A: "finite (batch_pixels ds idxs)" "batch_pixels ds idxs \<noteq> {}"
    using Cons.prems by (simp_all add: finite_batch_pixels)
  have B: "finite (batch_pixels ds (concat bs))" by (rule finite_batch_pixels)
  have r: "batch_range ds idxs = Inr (Max (batch_pixels ds idxs), Min (batch_pixels ds idxs))"
    using Cons.prems by simp
  have rest: "\<forall>idxs \<in> set bs. batch_range ds idxs = Inr (Max (batch_pixels ds idxs), Min (batch_pixels ds idxs))
      \<and> batch_pixels ds idxs \<noteq> {}"
    using Cons.prems by simp
  show ?case
    by (simp add: r Cons.IH[OF rest] batch_pixels_append Min_insert_min[OF A B] Max_insert_max[OF A B])
qed

lemma batch_pixels_nonempty:
  assumes "uniform C H W ds" "ok_batch ds idxs" "0 < C" "0 < H * W"
  shows "batch_pixels ds idxs \<noteq> {}"
proof -
  obtain i where i: "i \<in> set idxs" "i < length ds"
    using assms(2) by (cases idxs) (auto simp: ok_batch_def)
  have "length (vals (fst (ds ! i))) = C * H * W" by (rule uniform_nth(4)[OF assms(1) i(2)])
  then have "vals (fst (ds ! i)) \<noteq> []" using assms(3,4) by auto
  then show ?thesis using i(1) by (auto simp: batch_pixels_def)
qed

lemma batch_pixels_all: "batch_pixels ds [0..<length ds] = pixels ds"
proof -
  have "set ds = (\<lambda>i. ds ! i) ` {0..<length ds}"
    using map_nth[of ds] set_map[of "\<lambda>i. ds ! i" "[0..<length ds]"] by simp
  then have "(\<Union>i \<in> set [0..<length ds]. set (vals (fst (ds ! i)))) = (\<Union>x \<in> set ds. set (vals (fst x)))"
    by simp
  then show ?thesis by (simp add: batch_pixels_def pixels_def)
qed

lemma dataset_scaling_uniform:
  assumes "uniform C H W ds" "0 < b" "P = H * W"
  shows "dataset_scaling ds b =
    (if ds = [] then Inr (1, [])
     else if C = 0 \<or> P = 0 then Inl RuntimeError
     else Inr (max \<bar>Min (insert 1 (pixels ds))\<bar> \<bar>Max (insert (- 1) (pixels ds))\<bar>, [0..<length ds]))"
proof (cases "ds = []")
  case True
  then show ?thesis using assms(2) by (simp add: dataset_scaling_def batch_sampler_def batches_Nil)
next
  case False
  let ?bs = "batches b [0..<length ds]"
  have "?bs \<noteq> []" using False assms(2) by (simp add: batches_eq_Nil)
  then obtain idxs rest where bs: "?bs = idxs # rest" by (cases ?bs) auto
  have ok: "\<forall>idxs \<in> set ?bs. ok_batch ds idxs" using ok_batches[OF assms(2)] by blast
  have cc: "concat ?bs = [0..<length ds]"
    by (rule concat_batches[OF assms(2)])
  show ?thesis
  proof (cases "C = 0 \<or> P = 0")
    case True
    have "ok_batch ds idxs" using ok bs by simp
    then have "batch_range ds idxs = Inl RuntimeError"
      using range_batch[OF assms(1) _ assms(3)] True by simp
    then show ?thesis using False True assms(2)
      by (auto simp: dataset_scaling_def batch_sampler_def bs)
  next
    case ne: False
    then have C: "0 < C" and P: "0 < H * W" using assms(3) by auto
    have all: "\<forall>idxs \<in> set ?bs. batch_range ds idxs = Inr (Max (batch_pixels ds idxs), Min (batch_pixels ds idxs))
      \<and> batch_pixels ds idxs \<noteq> {}"
      using range_batch[OF assms(1) _ assms(3)] batch_pixels_nonempty[OF assms(1) _ C P] ok ne by auto
    show ?thesis using False ne assms(2)
      by (simp add: dataset_scaling_def batch_sampler_def scaling_loop_ok[OF all] cc batch_pixels_all)
  qed
qed

lemma scaling_init:
  assumes "finite S" "S \<noteq> {}"
  shows "max \<bar>Min (insert 1 S)\<bar> \<bar>Max (insert (- 1) S)\<bar> = max \<bar>Min S\<bar> \<bar>Max (S::real set)\<bar>"
proof -
  have le: "Min S \<le> Max S" using assms by simp
  have "Min (insert 1 S) = min 1 (Min S)" "Max (insert (- 1) S) = max (- 1) (Max S)"
    using assms by simp_all
  then show ?thesis using le by (auto simp: min_def max_def abs_if)
qed

lemma finite_pixels: "finite (pixels ds)"
  by (simp add: pixels_def)

lemma abs_le_scaling:
  assumes "finite S" "x \<in> S"
  shows "\<bar>x\<bar> \<le> max \<bar>Min S\<bar> \<bar>Max (S::real set)\<bar>"
proof -
  have "Min S \<le> x" "x \<le> Max S" using assms by simp_all
  then show ?thesis by (auto simp: max_def abs_if)
qed

text \<open>
  C3, as it holds on the code: for a non-empty dataset of \<open>C \<times> H \<times> W\<close> tensors with
  \<open>C, H, W > 0\<close> and a positive batch size, \<open>dataset_scaling\<close> returns
  \<open>s = max(|min|, |max|)\<close> over all pixel values, every pixel value \<open>x\<close> satisfies
  \<open>|x| \<le> s\<close>, and whenever \<open>s \<noteq> 0\<close> the quotient \<open>x / s\<close> lies in \<open>[-1, 1]\<close>; \<open>s = 0\<close>
  exactly when every pixel is 0. (The running minimum starts at 1 and the running maximum
  at -1, as lemma \<open>dataset_scaling_uniform\<close> shows; for a dataset with pixels this does not
  change the result.)
\<close>

theorem dataset_scaling_correct:
  assumes "ds \<noteq> []" "uniform C H W ds" "0 < C" "0 < H" "0 < W" "0 < b"
  shows "\<exists>s. dataset_scaling ds b = Inr (s, [0..<length ds]) \<and>
    s = max \<bar>Min (pixels ds)\<bar> \<bar>Max (pixels ds)\<bar> \<and>
    (\<forall>x \<in> pixels ds. \<bar>x\<bar> \<le> s \<and> (s \<noteq> 0 \<longrightarrow> - 1 \<le> x / s \<and> x / s \<le> 1)) \<and>
    (s = 0 \<longleftrightarrow> pixels ds = {0})"
proof -
  let ?s = "max \<bar>Min (pixels ds)\<bar> \<bar>Max (pixels ds)\<bar>"
  have "batch_pixels ds [0..<length ds] \<noteq> {}"
    by (rule batch_pixels_nonempty[OF assms(2)]) (use assms in \<open>auto simp: ok_batch_def\<close>)
  then have ne: "pixels ds \<noteq> {}" by (simp add: batch_pixels_all)
  have run: "dataset_scaling ds b = Inr (?s, [0..<length ds])"
    using assms(1,3,4,5)
    by (simp add: dataset_scaling_uniform[OF assms(2,6) refl] scaling_init[OF finite_pixels ne])
  have bound: "\<bar>x\<bar> \<le> ?s" if "x \<in> pixels ds" for x
    by (rule abs_le_scaling[OF finite_pixels that])
  have "- 1 \<le> x / ?s \<and> x / ?s \<le> 1" if "x \<in> pixels ds" "?s \<noteq> 0" for x
  proof -
    have pos: "0 < ?s" using that(2) by (auto simp: max_def split: if_splits)
    have "- ?s \<le> x" "x \<le> ?s" using bound[OF that(1)] by (auto simp: abs_le_iff)
    then show ?thesis using pos by (simp add: pos_le_divide_eq pos_divide_le_eq)
  qed
  moreover have "?s = 0 \<longleftrightarrow> pixels ds = {0}"
  proof
    assume "?s = 0"
    then have "\<forall>x \<in> pixels ds. x = 0" using bound by fastforce
    then show "pixels ds = {0}" using ne by auto
  next
    assume "pixels ds = {0}"
    then show "?s = 0" by simp
  qed
  ultimately show ?thesis using run bound by blast
qed

theorem dataset_scaling_correct_witness:
  "uniform 2 1 2
     [(\<lparr>chans = 2, height = 1, width = 2, vals = [1, - 3, 5, 7]\<rparr>, 0),
      (\<lparr>chans = 2, height = 1, width = 2, vals = [2, 4, - 8, 6]\<rparr>, 1)] \<and>
   dataset_scaling
     [(\<lparr>chans = 2, height = 1, width = 2, vals = [1, - 3, 5, 7]\<rparr>, 0),
      (\<lparr>chans = 2, height = 1, width = 2, vals = [2, 4, - 8, 6]\<rparr>, 1)] 1 =
   Inr (8, [0, 1])"
proof -
  let ?ds = "[(\<lparr>chans = 2, height = 1, width = 2, vals = [1, - 3, 5, 7::real]\<rparr>, 0::nat),
      (\<lparr>chans = 2, height = 1, width = 2, vals = [2, 4, - 8, 6]\<rparr>, 1)]"
  have u: "uniform 2 1 2 ?ds" by (simp add: uniform_def)
  have two: "[0..<2] = [0, Suc 0]" by (simp add: upt_rec)
  have "\<exists>s. dataset_scaling ?ds 1 = Inr (s, [0..<length ?ds]) \<and>
    s = max \<bar>Min (pixels ?ds)\<bar> \<bar>Max (pixels ?ds)\<bar> \<and>
    (\<forall>x \<in> pixels ?ds. \<bar>x\<bar> \<le> s \<and> (s \<noteq> 0 \<longrightarrow> - 1 \<le> x / s \<and> x / s \<le> 1)) \<and>
    (s = 0 \<longleftrightarrow> pixels ?ds = {0})"
    by (rule dataset_scaling_correct[OF _ u]) simp_all
  moreover have "max \<bar>Min (pixels ?ds)\<bar> \<bar>Max (pixels ?ds)\<bar> = 8"
    by (simp add: pixels_def)
  ultimately show ?thesis using u by (auto simp: two)
qed

text \<open>
  C3 as stated fails on a dataset whose pixels are all zero: the scaling factor is 0, and
  rescaling by it is refused.
\<close>

theorem dataset_scaling_zero_counterexample:
  "dataset_scaling [(\<lparr>chans = 3, height = 1, width = 1, vals = [0, 0, 0]\<rparr>, 0)] 1 = Inr (0, [0]) \<and>
   Normalize [0, 0, 0] [0, 0, 0] \<lparr>chans = 3, height = 1, width = 1, vals = [0, 0, 0]\<rparr> = Inl ValueError"
  by (simp add: dataset_scaling_def batch_sampler_def batches.simps batch_range_def fetch_def collate_def
      same_shape_def view_def rows_def Normalize_def upt_rec)

section \<open>Batch size and reads\<close>

lemma upt_2: "[0..<2] = [0, Suc 0]"
  by (simp add: upt_rec)

lemma batches_1_2: "batches (Suc 0) [0, Suc 0] = [[0], [Suc 0]]"
  by (simp add: batches.simps)

lemma two_pixels_uniform: "uniform 1 1 1 two_pixels"
  by (simp add: uniform_def)

lemma two_pixels_mean: "dataset_mean two_pixels 1 = Inr (Tensor [2], [0, 1])"
  by (simp add: dataset_mean_def batch_sampler_def upt_2 batches_1_2 batch_mean_def fetch_def collate_def
      same_shape_def view_def rows_def mean2_def sum0_def)

lemma two_pixels_std: "dataset_std two_pixels [2] 1 = Inr (Tensor [1], [0, 0, 1])"
  by (simp add: dataset_std_def batch_sampler_def upt_2 batches_1_2 batch_sqdev_def fetch_def collate_def
      same_shape_def view_def rows_def bsub_def square_def sum02_def sum0_def)

lemma two_pixels_scaling: "dataset_scaling two_pixels 1 = Inr (3, [0, 1])"
  by (simp add: dataset_scaling_def batch_sampler_def upt_2 batches_1_2 batch_range_def fetch_def collate_def
      same_shape_def view_def rows_def)

text \<open>
  C8, as it holds on the code: on a dataset whose items all have the same shape, every
  positive batch size gives the same result (value, or exception) of \<open>dataset_mean\<close>,
  \<open>dataset_std\<close> and \<open>dataset_scaling\<close>, in exact arithmetic.
\<close>

theorem batch_size_independent:
  assumes "uniform C H W ds" "0 < b1" "0 < b2"
  shows "dataset_mean ds b1 = dataset_mean ds b2 \<and>
    dataset_std ds mean b1 = dataset_std ds mean b2 \<and>
    dataset_scaling ds b1 = dataset_scaling ds b2"
proof -
  have "dataset_mean ds b1 = dataset_mean ds b2"
    by (simp only: dataset_mean_uniform[OF assms(1,2) refl] dataset_mean_uniform[OF assms(1,3) refl])
  moreover have "dataset_std ds mean b1 = dataset_std ds mean b2"
    by (simp only: dataset_std_uniform[OF assms(1,2)] dataset_std_uniform[OF assms(1,3)])
  moreover have "dataset_scaling ds b1 = dataset_scaling ds b2"
    by (simp only: dataset_scaling_uniform[OF assms(1,2) refl] dataset_scaling_uniform[OF assms(1,3) refl])
  ultimately show ?thesis by simp
qed

theorem batch_size_independent_witness:
  "uniform 1 1 1 two_pixels \<and>
   dataset_mean two_pixels 2 = Inr (Tensor [2], [0, 1]) \<and>
   dataset_std two_pixels [2] 2 = Inr (Tensor [1], [0, 0, 1]) \<and>
   dataset_scaling two_pixels 2 = Inr (3, [0, 1])"
proof -
  have "dataset_mean two_pixels 1 = dataset_mean two_pixels 2 \<and>
    dataset_std two_pixels [2] 1 = dataset_std two_pixels [2] 2 \<and>
    dataset_scaling two_pixels 1 = dataset_scaling two_pixels 2"
    by (rule batch_size_independent[OF two_pixels_uniform]) simp_all
  then show ?thesis
    using two_pixels_uniform two_pixels_mean two_pixels_std two_pixels_scaling by simp
qed

text \<open>
  C8 as stated fails on a dataset with items of two shapes: with batch size 1 every batch
  can be stacked and a mean is returned, with batch size 2 the stacking of the two items
  raises.
\<close>

theorem batch_size_mixed_shapes_counterexample:
  "dataset_mean
     [(\<lparr>chans = 1, height = 1, width = 1, vals = [1]\<rparr>, 0),
      (\<lparr>chans = 1, height = 1, width = 2, vals = [1, 3]\<rparr>, 1)] 1 = Inr (Tensor [3 / 2], [0, 1]) \<and>
   dataset_mean
     [(\<lparr>chans = 1, height = 1, width = 1, vals = [1]\<rparr>, 0),
      (\<lparr>chans = 1, height = 1, width = 2, vals = [1, 3]\<rparr>, 1)] 2 = Inl RuntimeError"
proof -
  have b: "batches 2 [0, Suc 0] = [[0, Suc 0]]"
    by (simp add: batches.simps)
  show ?thesis
    by (simp add: dataset_mean_def batch_sampler_def upt_2 batches_1_2 b batch_mean_def fetch_def collate_def
        same_shape_def view_def rows_def mean2_def sum0_def)
qed

lemma bindE_Inr_iff: "bindE m f = Inr y \<longleftrightarrow> (\<exists>x. m = Inr x \<and> f x = Inr y)"
  by (cases m) simp_all












section \<open>The label map\<close>

lemma labels_loop_other:
  "(\<forall>j < length xs. k \<noteq> IntKey (n + j) \<and> k \<noteq> StrKey (xs ! j)) \<Longrightarrow>
   labels_loop (enumerate n xs) d k = d k"
proof (induction xs arbitrary: n d)
  case Nil
  then show ?case by simp
next
  case (Cons x xs)
  have "\<forall>j < length xs. k \<noteq> IntKey (Suc n + j) \<and> k \<noteq> StrKey (xs ! j)"
    using Cons.prems by (metis Suc_less_eq add_Suc_right add_Suc length_Cons nth_Cons_Suc)
  from Cons.IH[OF this] have "labels_loop (enumerate (Suc n) xs) d' k = d' k" for d' .
  moreover have "k \<noteq> IntKey n" "k \<noteq> StrKey x" using Cons.prems by force+
  ultimately show ?case by simp
qed

lemma labels_loop_keys:
  "distinct xs \<Longrightarrow> j < length xs \<Longrightarrow>
   labels_loop (enumerate n xs) d (IntKey (n + j)) = Some (StrKey (xs ! j)) \<and>
   labels_loop (enumerate n xs) d (StrKey (xs ! j)) = Some (IntKey (n + j))"
proof (induction xs arbitrary: n d j)
  case Nil
  then show ?case by simp
next
  case (Cons x xs)
  let ?d = "(d(IntKey n \<mapsto> StrKey x))(StrKey x \<mapsto> IntKey n)"
  have dx: "distinct xs" "x \<notin> set xs" using Cons.prems(1) by simp_all
  show ?case
  proof (cases j)
    case 0
    have "labels_loop (enumerate (Suc n) xs) ?d (IntKey n) = ?d (IntKey n)"
      by (rule labels_loop_other) simp
    moreover have "labels_loop (enumerate (Suc n) xs) ?d (StrKey x) = ?d (StrKey x)"
      by (rule labels_loop_other) (use dx(2) in \<open>auto simp: in_set_conv_nth\<close>)
    ultimately show ?thesis using 0 by simp
  next
    case (Suc i)
    then have "i < length xs" using Cons.prems(2) by simp
    from Cons.IH[OF dx(1) this, of "Suc n" ?d] show ?thesis using Suc by (simp del: fun_upd_apply)
  qed
qed

lemma labels_loop_dom:
  "dom (labels_loop (enumerate n xs) d) = dom d \<union> IntKey ` {n..<n + length xs} \<union> StrKey ` set xs"
proof (induction xs arbitrary: n d)
  case Nil
  then show ?case by simp
next
  case (Cons x xs)
  have "{n..<n + length (x # xs)} = insert n {Suc n..<Suc n + length xs}" by auto
  moreover have "dom ((d(IntKey n \<mapsto> StrKey x))(StrKey x \<mapsto> IntKey n)) = insert (StrKey x) (insert (IntKey n) (dom d))"
    by auto
  ultimately show ?case by (simp add: Cons.IH del: fun_upd_apply) 
qed

text \<open>
  C10: for a listing of distinct folder names, the dictionary built by
  \<open>generate_labels_id_map\<close> maps every label to an id and that id back to the label, and
  every index below the number of labels to a label and that label back to the index;
  index \<open>i\<close> is given to the \<open>i\<close>-th label in sorted order, so two listings of the same
  set of names give the same dictionary.
\<close>

theorem labels_id_map_inverse:
  assumes "listdir fs photos_dir = Inr names" "distinct names"
  shows "\<exists>d. generate_labels_id_map fs photos_dir = Inr d \<and>
     (\<forall>label \<in> set names. bindE (getitem d (StrKey label)) (getitem d) = Inr (StrKey label)) \<and>
     (\<forall>i < length names. bindE (getitem d (IntKey i)) (getitem d) = Inr (IntKey i)) \<and>
     (\<forall>i < length names. d (IntKey i) = Some (StrKey (sort names ! i)) \<and>
                          d (StrKey (sort names ! i)) = Some (IntKey i)) \<and>
     dom d = IntKey ` {..<length names} \<union> StrKey ` set names \<and>
     (listdir fs' dir' = Inr names' \<and> distinct names' \<and> set names' = set names \<longrightarrow>
        generate_labels_id_map fs' dir' = Inr d)"
proof -
  let ?xs = "sort names"
  let ?d = "labels_loop (enumerate 0 ?xs) Map.empty"
  have dist: "distinct ?xs" and len: "length ?xs = length names" and set: "set ?xs = set names"
    using assms(2) by simp_all
  have run: "generate_labels_id_map fs photos_dir = Inr ?d"
    by (simp add: generate_labels_id_map_def assms(1))
  have keys: "?d (IntKey i) = Some (StrKey (?xs ! i)) \<and> ?d (StrKey (?xs ! i)) = Some (IntKey i)"
    if "i < length names" for i
    using labels_loop_keys[OF dist, of i 0 Map.empty] that len by simp
  have ids: "bindE (getitem ?d (IntKey i)) (getitem ?d) = Inr (IntKey i)" if "i < length names" for i
    using keys[OF that] by (simp add: getitem_def)
  have labels: "bindE (getitem ?d (StrKey l)) (getitem ?d) = Inr (StrKey l)" if "l \<in> set names" for l
  proof -
    from that set obtain i where "i < length ?xs" "?xs ! i = l" by (metis in_set_conv_nth)
    then show ?thesis using keys[of i] len by (auto simp: getitem_def)
  qed
  have dom: "dom ?d = IntKey ` {..<length names} \<union> StrKey ` set names"
    using labels_loop_dom[of 0 ?xs Map.empty] by (simp add: len set atLeast0LessThan)
  have det: "generate_labels_id_map fs' dir' = Inr ?d"
    if "listdir fs' dir' = Inr names'" "distinct names'" "set names' = set names"
  proof -
    have "sort names' = sort names"
      by (rule sorted_distinct_set_unique) (use that assms(2) in simp_all)
    then show ?thesis by (simp add: generate_labels_id_map_def that(1))
  qed
  show ?thesis using run ids labels keys dom det by blast
qed

theorem labels_id_map_inverse_witness:
  "listdir \<lparr>files = Map.empty, dirs = [''photo'' \<mapsto> [''cat'', ''apple'']]\<rparr> ''photo'' = Inr [''cat'', ''apple''] \<and>
   (\<exists>d. generate_labels_id_map \<lparr>files = Map.empty, dirs = [''photo'' \<mapsto> [''cat'', ''apple'']]\<rparr> ''photo'' = Inr d \<and>
     d (IntKey 0) = Some (StrKey ''apple'') \<and> d (IntKey 1) = Some (StrKey ''cat'') \<and>
     d (StrKey ''apple'') = Some (IntKey 0) \<and> d (StrKey ''cat'') = Some (IntKey 1) \<and>
     bindE (getitem d (StrKey ''cat'')) (getitem d) = Inr (StrKey ''cat'') \<and>
     bindE (getitem d (IntKey 0)) (getitem d) = Inr (IntKey 0))"
proof -
  let ?fs = "\<lparr>files = Map.empty, dirs = [''photo'' \<mapsto> [''cat'', ''apple'']]\<rparr>"
  have l: "listdir ?fs ''photo'' = Inr [''cat'', ''apple'']" by (simp add: listdir_def)
  have s: "sort [''cat'', ''apple''] = [''apple'', ''cat'']" by (simp add: less_char_def less_eq_char_def)
  from labels_id_map_inverse[OF l, of ?fs "''photo''" "[''cat'', ''apple'']"]
  obtain d where d: "generate_labels_id_map ?fs ''photo'' = Inr d"
    "\<forall>label \<in> set [''cat'', ''apple'']. bindE (getitem d (StrKey label)) (getitem d) = Inr (StrKey label)"
    "\<forall>i < length [''cat'', ''apple'']. bindE (getitem d (IntKey i)) (getitem d) = Inr (IntKey i)"
    "\<forall>i < length [''cat'', ''apple'']. d (IntKey i) = Some (StrKey (sort [''cat'', ''apple''] ! i)) \<and>
                          d (StrKey (sort [''cat'', ''apple''] ! i)) = Some (IntKey i)"
    by auto
  have "d (IntKey 0) = Some (StrKey ''apple'')" "d (StrKey ''apple'') = Some (IntKey 0)"
    using d(4)[rule_format, of 0] by (simp_all add: s)
  moreover have "d (IntKey 1) = Some (StrKey ''cat'')" "d (StrKey ''cat'') = Some (IntKey 1)"
    using d(4)[rule_format, of 1] by (simp_all add: s)
  moreover have "bindE (getitem d (StrKey ''cat'')) (getitem d) = Inr (StrKey ''cat'')"
    using d(2) by simp
  moreover have "bindE (getitem d (IntKey 0)) (getitem d) = Inr (IntKey 0)"
    using d(3) by simp
  ultimately show ?thesis using l d(1) by blast
qed

section \<open>InvertTransform\<close>



section \<open>The sketches dataset\<close>


text \<open>
  C4: a constructed \<open>SketchesDataset\<close> holds exactly the rows of \<^verbatim>\<open>stats.csv\<close>, in their
  order, whose column is 0 for every enabled removal flag (\<open>remove_error\<close> is enabled
  unless passed as False, the other three are enabled only when passed as True);
  \<open>__len__\<close> is the number of these rows; with all four flags disabled every row is kept.
\<close>

theorem SketchesDataset_filter:
  assumes "SketchesDataset_init fs sd idir tr re ra rp rc = Inr self"
  shows "\<exists>rows0. read_csv fs (path_join idir [''stats.csv'']) = Inr rows0 \<and>
    stats self = filter (\<lambda>r. (default_arg True re \<longrightarrow> ErrorQ r = 0) \<and>
                             (default_arg False ra \<longrightarrow> AmbiguousQ r = 0) \<and>
                             (default_arg False rp \<longrightarrow> WrongPoseQ r = 0) \<and>
                             (default_arg False rc \<longrightarrow> ContextQ r = 0)) rows0 \<and>
    SketchesDataset_len self =
      length (filter (\<lambda>r. (default_arg True re \<longrightarrow> ErrorQ r = 0) \<and>
                             (default_arg False ra \<longrightarrow> AmbiguousQ r = 0) \<and>
                             (default_arg False rp \<longrightarrow> WrongPoseQ r = 0) \<and>
                             (default_arg False rc \<longrightarrow> ContextQ r = 0)) rows0) \<and>
    (\<forall>r. r \<in> set (stats self) \<longleftrightarrow>
       r \<in> set rows0 \<and> (default_arg True re \<longrightarrow> ErrorQ r = 0) \<and> (default_arg False ra \<longrightarrow> AmbiguousQ r = 0) \<and>
       (default_arg False rp \<longrightarrow> WrongPoseQ r = 0) \<and> (default_arg False rc \<longrightarrow> ContextQ r = 0)) \<and>
    (\<not> default_arg True re \<and> \<not> default_arg False ra \<and> \<not> default_arg False rp \<and> \<not> default_arg False rc \<longrightarrow>
       stats self = rows0)"
proof -
  from assms obtain ls rows0 where
    r: "read_csv fs (path_join idir [''stats.csv'']) = Inr rows0"
    and s: "self = \<lparr>sketches_dir = sd, info_dir = idir, transform = tr, invalid = ls,
      stats = (let stats1 = (if default_arg True re then filter (\<lambda>r. ErrorQ r = 0) rows0 else rows0);
           stats2 = (if default_arg False ra then filter (\<lambda>r. AmbiguousQ r = 0) stats1 else stats1);
           stats3 = (if default_arg False rp then filter (\<lambda>r. WrongPoseQ r = 0) stats2 else stats2)
        in (if default_arg False rc then filter (\<lambda>r. ContextQ r = 0) stats3 else stats3))\<rparr>"
    by (auto simp: SketchesDataset_init_def bindE_Inr_iff Let_def)
  have st: "stats self = filter (\<lambda>r. (default_arg True re \<longrightarrow> ErrorQ r = 0) \<and>
                             (default_arg False ra \<longrightarrow> AmbiguousQ r = 0) \<and>
                             (default_arg False rp \<longrightarrow> WrongPoseQ r = 0) \<and>
                             (default_arg False rc \<longrightarrow> ContextQ r = 0)) rows0"
    unfolding s by (simp add: Let_def conj_commute conj_left_commute cong: conj_cong)
  have mem: "\<forall>r. r \<in> set (stats self) \<longleftrightarrow>
       r \<in> set rows0 \<and> (default_arg True re \<longrightarrow> ErrorQ r = 0) \<and> (default_arg False ra \<longrightarrow> AmbiguousQ r = 0) \<and>
       (default_arg False rp \<longrightarrow> WrongPoseQ r = 0) \<and> (default_arg False rc \<longrightarrow> ContextQ r = 0)"
    unfolding st by auto
  have none: "stats self = rows0"
    if "\<not> default_arg True re \<and> \<not> default_arg False ra \<and> \<not> default_arg False rp \<and> \<not> default_arg False rc"
    unfolding st using that by simp
  have len: "SketchesDataset_len self =
      length (filter (\<lambda>r. (default_arg True re \<longrightarrow> ErrorQ r = 0) \<and>
                             (default_arg False ra \<longrightarrow> AmbiguousQ r = 0) \<and>
                             (default_arg False rp \<longrightarrow> WrongPoseQ r = 0) \<and>
                             (default_arg False rc \<longrightarrow> ContextQ r = 0)) rows0)"
    by (simp only: SketchesDataset_len_def st)
  show ?thesis using r st mem none len by blast
qed

lemma info_fs_init:
  "SketchesDataset_init info_fs ''sketch'' ''info'' None None (Some True) None None =
   Inr \<lparr>sketches_dir = ''sketch'', info_dir = ''info'', transform = None, invalid = [], stats = [row_ok]\<rparr>"
  by (simp add: SketchesDataset_init_def read_lines_def read_csv_def path_join_def join2_def)

theorem SketchesDataset_filter_witness:
  "SketchesDataset_init info_fs ''sketch'' ''info'' None None (Some True) None None =
     Inr \<lparr>sketches_dir = ''sketch'', info_dir = ''info'', transform = None, invalid = [], stats = [row_ok]\<rparr> \<and>
   read_csv info_fs (path_join ''info'' [''stats.csv'']) = Inr [row_ok, row_error, row_ambiguous] \<and>
   SketchesDataset_len
     \<lparr>sketches_dir = ''sketch'', info_dir = ''info'', transform = None, invalid = [], stats = [row_ok]\<rparr> = 1"
proof -
  have r: "read_csv info_fs (path_join ''info'' [''stats.csv'']) = Inr [row_ok, row_error, row_ambiguous]"
    by (simp add: read_csv_def path_join_def join2_def)
  from SketchesDataset_filter[OF info_fs_init] r
  have "SketchesDataset_len
     \<lparr>sketches_dir = ''sketch'', info_dir = ''info'', transform = None, invalid = [], stats = [row_ok]\<rparr> =
    length (filter (\<lambda>r. (default_arg True None \<longrightarrow> ErrorQ r = 0) \<and>
                             (default_arg False (Some True) \<longrightarrow> AmbiguousQ r = 0) \<and>
                             (default_arg False None \<longrightarrow> WrongPoseQ r = 0) \<and>
                             (default_arg False None \<longrightarrow> ContextQ r = 0)) [row_ok, row_error, row_ambiguous])"
    by auto
  then show ?thesis using info_fs_init r by simp
qed



section \<open>The statistics archive\<close>





















end
